theory Spec2Isabelle
  imports Main "HOL-Library.Finite_Map"
begin

section \<open>Strings as the program uses them\<close>

text \<open>
  A Python \<open>str\<close> is modelled as a \<open>string\<close>: a list of characters with code points
  below 256.  The functions of this section are the ones of Python's \<open>str\<close> and \<open>re\<close>
  that the program calls, restricted to that range.
\<close>

text \<open>\<open>str.isspace\<close> on one character, which is also what \<open>\s\<close> matches and what
  \<open>str.strip()\<close> removes.\<close>

definition is_space :: "char \<Rightarrow> bool" where
  "is_space c =
     (let n = (of_char c :: nat)
      in n = 32 \<or> (9 \<le> n \<and> n \<le> 13) \<or> (28 \<le> n \<and> n \<le> 31) \<or> n = 133 \<or> n = 160)"

text \<open>\<open>str.lower\<close> on one character: the letters A to Z and the upper-case letters of
  Latin-1 move up by 32.\<close>

definition lower_char :: "char \<Rightarrow> char" where
  "lower_char c =
     (let n = (of_char c :: nat)
      in if (65 \<le> n \<and> n \<le> 90) \<or> (192 \<le> n \<and> n \<le> 222 \<and> n \<noteq> 215)
         then char_of (n + 32) else c)"

definition lower :: "string \<Rightarrow> string" where
  "lower s = map lower_char s"

text \<open>\<open>s.startswith(t)\<close>, \<open>s.endswith(t)\<close> and \<open>t in s\<close>.\<close>

fun startswith :: "string \<Rightarrow> string \<Rightarrow> bool" where
  "startswith s [] = True"
| "startswith [] (y # ys) = False"
| "startswith (x # xs) (y # ys) = (x = y \<and> startswith xs ys)"

definition endswith :: "string \<Rightarrow> string \<Rightarrow> bool" where
  "endswith s t = startswith (rev s) (rev t)"

fun contains :: "string \<Rightarrow> string \<Rightarrow> bool" where
  "contains [] t = (t = [])"
| "contains (x # xs) t = (startswith (x # xs) t \<or> contains xs t)"

text \<open>\<open>s.strip()\<close>.\<close>

definition strip :: "string \<Rightarrow> string" where
  "strip s = rev (dropWhile is_space (rev (dropWhile is_space s)))"

section \<open>Configuration constants\<close>

definition PHRASE :: string where
  "PHRASE = ''OceanofPDFs.com''"

definition URI_MATCH :: string where
  "URI_MATCH = ''OceanofPDFs.com''"

definition PREFIX :: string where
  "PREFIX = ''_OceanofPDFs.com_''"

definition ZLIB_SUFFIX :: string where
  "ZLIB_SUFFIX = ''_ (Z-Library)''"

section \<open>The text pattern\<close>

text \<open>
  The regular expressions of the program are sequences of two kinds of item: a literal
  character matched without regard to case (the pattern is compiled with \<open>(?i)\<close>), and
  \<open>\s*\<close>.  \<open>match_here\<close> says whether the pattern matches at the start of the text
  and \<open>search\<close> is \<open>Pattern.search(text) is not None\<close>.
\<close>

datatype item = Lit char | Spaces

fun match_here :: "item list \<Rightarrow> string \<Rightarrow> bool" where
  "match_here [] s = True"
| "match_here (Lit c # ps) [] = False"
| "match_here (Lit c # ps) (x # xs) = (lower_char x = c \<and> match_here ps xs)"
| "match_here (Spaces # ps) [] = match_here ps []"
| "match_here (Spaces # ps) (x # xs) =
     (match_here ps (x # xs) \<or> (is_space x \<and> match_here (Spaces # ps) xs))"

fun search :: "item list \<Rightarrow> string \<Rightarrow> bool" where
  "search p [] = match_here p []"
| "search p (x # xs) = (match_here p (x # xs) \<or> search p xs)"

text \<open>\<open>TEXT_PATTERN\<close>, item by item as the source writes it:
  \<^verbatim>\<open>(?i)o\s*c\s*e\s*a\s*n\s*o\s*f\s*p\s*d\s*f\s*\.\s*c\s*o\s*m\<close>.\<close>

definition TEXT_PATTERN :: "item list" where
  "TEXT_PATTERN =
     [Lit CHR ''o'', Spaces, Lit CHR ''c'', Spaces, Lit CHR ''e'', Spaces, Lit CHR ''a'', Spaces,
      Lit CHR ''n'', Spaces, Lit CHR ''o'', Spaces, Lit CHR ''f'', Spaces, Lit CHR ''p'', Spaces,
      Lit CHR ''d'', Spaces, Lit CHR ''f'', Spaces, Lit CHR ''.'', Spaces, Lit CHR ''c'', Spaces,
      Lit CHR ''o'', Spaces, Lit CHR ''m'']"

section \<open>Documents\<close>

text \<open>
  What the program sees of a page through the PDF library: its link annotations
  (\<open>get_links\<close>; a link is a dictionary that may have a \<open>uri\<close> key), its text
  dictionary (\<open>get_text("dict")\<close>: blocks of lines of spans, each span with a text and
  a bounding box) and the redaction annotations added and not yet applied.  An image
  block has no \<open>lines\<close> key and is a block without lines.
\<close>

type_synonym rect = "int \<times> int \<times> int \<times> int"

record link =
  uri :: "string option"
  from_rect :: rect

record span =
  span_text :: string
  span_bbox :: rect

type_synonym line = "span list"
type_synonym block = "line list"

record page =
  links :: "link list"
  blocks :: "block list"
  redact_annots :: "rect list"

type_synonym document = "page list"

subsection \<open>Link removal\<close>

text \<open>\<open>link.get("uri", "")\<close>.\<close>

definition get_uri :: "link \<Rightarrow> string" where
  "get_uri l = (case uri l of None \<Rightarrow> [] | Some u \<Rightarrow> u)"

text \<open>The test of \<open>remove_links\<close>: \<open>uri and URI_MATCH in uri.lower()\<close>.\<close>

definition link_matches :: "link \<Rightarrow> bool" where
  "link_matches l = (get_uri l \<noteq> [] \<and> contains (lower (get_uri l)) URI_MATCH)"

text \<open>
  \<open>remove_links\<close> walks the list that \<open>get_links\<close> returned; \<open>delete_link\<close> takes the
  link off the page.  The result is the page afterwards and the counter \<open>removed\<close>.
\<close>

fun remove_links_loop :: "link list \<Rightarrow> link list \<times> int \<Rightarrow> link list \<times> int" where
  "remove_links_loop [] (kept, removed) = (kept, removed)"
| "remove_links_loop (l # ls) (kept, removed) =
     (if link_matches l then remove_links_loop ls (kept, removed + 1)
      else remove_links_loop ls (kept @ [l], removed))"

definition remove_links :: "page \<Rightarrow> page \<times> int" where
  "remove_links pg =
     (let (kept, removed) = remove_links_loop (links pg) ([], 0)
      in (pg\<lparr>links := kept\<rparr>, removed))"

subsection \<open>Text redaction\<close>

text \<open>
  The library's plain text of a page (\<open>get_text("text")\<close>): the texts of the spans of
  each line, every line closed by a newline.
\<close>

definition get_text_plain :: "page \<Rightarrow> string" where
  "get_text_plain pg =
     concat (map (\<lambda>ln. concat (map span_text ln) @ [CHR 0x0A]) (concat (blocks pg)))"

text \<open>\<open>page_might_contain_phrase\<close>: \<open>bool(t and TEXT_PATTERN.search(t))\<close>.\<close>

definition page_might_contain_phrase :: "page \<Rightarrow> bool" where
  "page_might_contain_phrase pg =
     (let t = get_text_plain pg in t \<noteq> [] \<and> search TEXT_PATTERN t)"

text \<open>The test on a span in \<open>redact_phrase\<close>: \<open>txt and TEXT_PATTERN.search(txt)\<close>.\<close>

definition span_matches :: "span \<Rightarrow> bool" where
  "span_matches sp = (span_text sp \<noteq> [] \<and> search TEXT_PATTERN (span_text sp))"

text \<open>
  The library's \<open>apply_redactions\<close>, by its documented contract (the source:
  ``apply the redactions to permanently remove the text''): the text under a
  redaction annotation is removed and the annotations are consumed.  A span is under an
  annotation when the annotation was made from its bounding box.
\<close>

definition apply_redactions :: "page \<Rightarrow> page" where
  "apply_redactions pg =
     pg\<lparr>blocks := map (map (filter (\<lambda>sp. span_bbox sp \<notin> set (redact_annots pg)))) (blocks pg),
        redact_annots := []\<rparr>"

text \<open>
  \<open>redact_phrase\<close>: the three nested loops visit the spans of the page in order; each
  matching span gets a redaction annotation over its bounding box and counts as a hit;
  the redactions are applied when there was a hit.
\<close>

definition redact_phrase :: "page \<Rightarrow> page \<times> int" where
  "redact_phrase pg =
     (let marked = filter span_matches (concat (concat (blocks pg)));
          hits = int (length marked);
          pg1 = pg\<lparr>redact_annots := redact_annots pg @ map span_bbox marked\<rparr>
      in if hits \<noteq> 0 then (apply_redactions pg1, hits) else (pg1, hits))"

section \<open>Paths and the file system\<close>

text \<open>
  A \<open>pathlib.Path\<close> of the POSIX flavour: the directory part and the final component.
  \<open>suffix\<close>, \<open>stem\<close>, \<open>with_name\<close>, \<open>with_suffix\<close> and \<open>with_stem\<close> are the ones of the
  standard library: the suffix starts at the last dot of the name, unless that dot is
  the first or the last character; \<open>with_name\<close> refuses a path without a name and a new
  name that is empty, is a single dot or has a separator.
\<close>

datatype exn = ValueError string | OSError string | LibError string

fun message :: "exn \<Rightarrow> string" where
  "message (ValueError m) = m"
| "message (OSError m) = m"
| "message (LibError m) = m"

record path =
  parent :: string
  name :: string

definition suffix :: "path \<Rightarrow> string" where
  "suffix p =
     (let r = takeWhile (\<lambda>c. c \<noteq> CHR ''.'') (rev (name p))
      in if CHR ''.'' \<in> set (name p) \<and> r \<noteq> [] \<and> length r + 1 < length (name p)
         then CHR ''.'' # rev r else [])"

definition stem :: "path \<Rightarrow> string" where
  "stem p = take (length (name p) - length (suffix p)) (name p)"

definition with_name :: "path \<Rightarrow> string \<Rightarrow> exn + path" where
  "with_name p n =
     (if name p = [] then Inl (ValueError ''has an empty name'')
      else if n = [] \<or> n = ''.'' \<or> CHR ''/'' \<in> set n then Inl (ValueError ''Invalid name'')
      else Inr (p\<lparr>name := n\<rparr>))"

definition with_suffix :: "path \<Rightarrow> string \<Rightarrow> exn + path" where
  "with_suffix p sfx =
     (if CHR ''/'' \<in> set sfx then Inl (ValueError ''Invalid suffix'')
      else if (sfx \<noteq> [] \<and> \<not> startswith sfx ''.'') \<or> sfx = ''.''
        then Inl (ValueError ''Invalid suffix'')
      else if name p = [] then Inl (ValueError ''has an empty name'')
      else Inr (p\<lparr>name := stem p @ sfx\<rparr>))"

definition with_stem :: "path \<Rightarrow> string \<Rightarrow> exn + path" where
  "with_stem p st = with_name p (st @ suffix p)"

text \<open>
  A file has a content, which for a PDF is the document the library reads from it, and
  its access and modification times.  The file system maps the paths that exist to
  their files.
\<close>

record stored_file =
  content :: document
  atime :: int
  mtime :: int

type_synonym fs = "(path, stored_file) fmap"

definition exists :: "fs \<Rightarrow> path \<Rightarrow> bool" where
  "exists fs p = (fmlookup fs p \<noteq> None)"

text \<open>
  The calls of the library and of the operating system can raise.  Which call raises,
  and with which message, is an input of the model: \<open>fault\<close> gives the message for
  each call site that fails.  \<open>save_partial\<close> says whether a failing \<open>save\<close> leaves
  an incomplete file behind, \<open>copy_partial\<close> whether a failing copy has already
  overwritten its target, \<open>atime_on_read\<close> whether reading a file moves its access time
  (it does unless the file system is mounted without access times), and \<open>now\<close> is the
  time stamp of a write or a read.
\<close>

datatype site =
  Open | Links nat | Redact nat | Save | Close | Unlink | Move | Copy | Utime | Rename nat

record env =
  fault :: "site \<Rightarrow> string option"
  save_partial :: bool
  copy_partial :: bool
  atime_on_read :: bool
  now :: int

text \<open>\<open>get_file_times\<close>: the triple (atime, mtime, ctime), where outside Windows the
  third is the modification time again; \<open>(None, None, None)\<close> when \<open>stat\<close> raises.\<close>

definition get_file_times :: "fs \<Rightarrow> path \<Rightarrow> (int \<times> int \<times> int) option" where
  "get_file_times fs p =
     (case fmlookup fs p of None \<Rightarrow> None | Some f \<Rightarrow> Some (atime f, mtime f, mtime f))"

text \<open>\<open>restore_times\<close>: nothing without captured times; otherwise \<open>os.utime\<close>, whose
  exceptions are all swallowed.\<close>

definition restore_times :: "env \<Rightarrow> fs \<Rightarrow> path \<Rightarrow> (int \<times> int \<times> int) option \<Rightarrow> fs" where
  "restore_times e fs p stamps =
     (case stamps of
        None \<Rightarrow> fs
      | Some (a, m, c) \<Rightarrow>
          (case fault e Utime of
             Some msg \<Rightarrow> fs
           | None \<Rightarrow>
               (case fmlookup fs p of
                  None \<Rightarrow> fs
                | Some f \<Rightarrow> fmupd p (f\<lparr>atime := a, mtime := m\<rparr>) fs)))"

text \<open>
  \<open>fitz.open\<close> reads the file, which moves its access time, and then parses it, which
  can fail.  The result is the document or the exception, and the file system after
  the read.
\<close>

definition fitz_open :: "env \<Rightarrow> fs \<Rightarrow> path \<Rightarrow> (exn + document) \<times> fs" where
  "fitz_open e fs p =
     (case fmlookup fs p of
        None \<Rightarrow> (Inl (LibError ''no such file''), fs)
      | Some f \<Rightarrow>
          (let fs1 = (if atime_on_read e then fmupd p (f\<lparr>atime := now e\<rparr>) fs else fs)
           in case fault e Open of
                Some msg \<Rightarrow> (Inl (LibError msg), fs1)
              | None \<Rightarrow> (Inr (content f), fs1)))"

definition doc_save :: "env \<Rightarrow> fs \<Rightarrow> document \<Rightarrow> path \<Rightarrow> exn option \<times> fs" where
  "doc_save e fs doc p =
     (case fault e Save of
        Some msg \<Rightarrow>
          (Some (LibError msg),
           if save_partial e then fmupd p \<lparr>content = [], atime = now e, mtime = now e\<rparr> fs
           else fs)
      | None \<Rightarrow> (None, fmupd p \<lparr>content = doc, atime = now e, mtime = now e\<rparr> fs))"

definition doc_close :: "env \<Rightarrow> exn option" where
  "doc_close e = (case fault e Close of Some msg \<Rightarrow> Some (LibError msg) | None \<Rightarrow> None)"

definition unlink :: "env \<Rightarrow> fs \<Rightarrow> path \<Rightarrow> exn + fs" where
  "unlink e fs p =
     (case fault e Unlink of
        Some msg \<Rightarrow> Inl (OSError msg)
      | None \<Rightarrow>
          (if exists fs p then Inr (fmdrop p fs)
           else Inl (OSError ''No such file or directory'')))"

text \<open>
  \<open>shutil.move\<close> of a file: \<open>os.rename\<close> replaces the target in one step; when it
  raises an \<open>OSError\<close> (site \<open>Move\<close>), the file is copied over the target with its
  times (\<open>copy2\<close>, site \<open>Copy\<close>) and the source is deleted with \<open>os.unlink\<close>.  The
  result is the exception, if one leaves \<open>shutil.move\<close>, and the file system then.
\<close>

definition shutil_move :: "env \<Rightarrow> fs \<Rightarrow> path \<Rightarrow> path \<Rightarrow> exn option \<times> fs" where
  "shutil_move e fs src dst =
     (case fmlookup fs src of
        None \<Rightarrow> (Some (OSError ''No such file or directory''), fs)
      | Some f \<Rightarrow>
          (case fault e Move of
             None \<Rightarrow> (None, fmupd dst f (fmdrop src fs))
           | Some msg \<Rightarrow>
               (case fault e Copy of
                  Some msg2 \<Rightarrow>
                    (Some (OSError msg2),
                     if copy_partial e
                     then fmupd dst \<lparr>content = [], atime = now e, mtime = now e\<rparr> fs
                     else fs)
                | None \<Rightarrow>
                    (case unlink e (fmupd dst f fs) src of
                       Inl ex \<Rightarrow> (Some ex, fmupd dst f fs)
                     | Inr fs2 \<Rightarrow> (None, fs2)))))"

section \<open>Cleaning one PDF\<close>

text \<open>The first pass of \<open>process_pdf\<close>: \<open>for page in doc: link_hits += remove_links(page)\<close>.
  The number is the index of the page, for the call site.\<close>

fun pass_links :: "env \<Rightarrow> nat \<Rightarrow> document \<Rightarrow> exn + (document \<times> int)" where
  "pass_links e k [] = Inr ([], 0)"
| "pass_links e k (pg # pgs) =
     (case fault e (Links k) of
        Some msg \<Rightarrow> Inl (LibError msg)
      | None \<Rightarrow>
          (let (pg', n) = remove_links pg
           in case pass_links e (Suc k) pgs of
                Inl ex \<Rightarrow> Inl ex
              | Inr (pgs', m) \<Rightarrow> Inr (pg' # pgs', n + m)))"

text \<open>The second pass: \<open>if page_might_contain_phrase(page): text_hits += redact_phrase(page)\<close>.\<close>

fun pass_text :: "env \<Rightarrow> nat \<Rightarrow> document \<Rightarrow> exn + (document \<times> int)" where
  "pass_text e k [] = Inr ([], 0)"
| "pass_text e k (pg # pgs) =
     (case fault e (Redact k) of
        Some msg \<Rightarrow> Inl (LibError msg)
      | None \<Rightarrow>
          (let (pg', n) = (if page_might_contain_phrase pg then redact_phrase pg else (pg, 0))
           in case pass_text e (Suc k) pgs of
                Inl ex \<Rightarrow> Inl ex
              | Inr (pgs', m) \<Rightarrow> Inr (pg' # pgs', n + m)))"

type_synonym report = "bool \<times> int \<times> int \<times> string option"

text \<open>
  The body of the \<open>try\<close> of \<open>process_pdf\<close>.  It ends with the tuple it returns or with
  the exception that leaves it, and with the file system as it is at that moment.
\<close>

definition process_pdf_try ::
  "env \<Rightarrow> fs \<Rightarrow> path \<Rightarrow> path \<Rightarrow> (int \<times> int \<times> int) option \<Rightarrow> bool \<Rightarrow> bool
    \<Rightarrow> (exn + report) \<times> fs" where
  "process_pdf_try e fs pdf_path temp stamps links_only dry_run =
     (case fitz_open e fs pdf_path of
        (Inl ex, fs0) \<Rightarrow> (Inl ex, fs0)
      | (Inr doc, fs0) \<Rightarrow>
     (case pass_links e 0 doc of
        Inl ex \<Rightarrow> (Inl ex, fs0)
      | Inr (doc1, link_hits) \<Rightarrow>
     (case (if \<not> links_only then pass_text e 0 doc1 else Inr (doc1, 0)) of
        Inl ex \<Rightarrow> (Inl ex, fs0)
      | Inr (doc2, text_hits) \<Rightarrow>
     (let changed = (text_hits + link_hits > 0) in
      if dry_run then
        (case doc_close e of
           Some ex \<Rightarrow> (Inl ex, fs0)
         | None \<Rightarrow> (Inr (True, text_hits, link_hits, None), fs0))
      else
     (case (if changed then doc_save e fs0 doc2 temp else (None, fs0)) of
        (Some ex, fs1) \<Rightarrow> (Inl ex, fs1)
      | (None, fs1) \<Rightarrow>
     (case doc_close e of
        Some ex \<Rightarrow> (Inl ex, fs1)
      | None \<Rightarrow>
      if \<not> changed then
        (if exists fs1 temp then
           (case unlink e fs1 temp of
              Inl ex \<Rightarrow> (Inl ex, fs1)
            | Inr fs2 \<Rightarrow> (Inr (False, 0, 0, None), fs2))
         else (Inr (False, 0, 0, None), fs1))
      else
     (case shutil_move e fs1 temp pdf_path of
        (Some ex, fs2) \<Rightarrow> (Inl ex, fs2)
      | (None, fs2) \<Rightarrow>
          (Inr (True, text_hits, link_hits, None),
           restore_times e fs2 pdf_path stamps))))))))"

text \<open>
  \<open>process_pdf\<close>: the temporary path and the time stamps are taken before the \<open>try\<close>;
  the handler deletes the temporary file when there is one and returns the failure
  tuple.  \<open>Inl\<close> is an exception that leaves \<open>process_pdf\<close>.
\<close>

definition process_pdf :: "env \<Rightarrow> fs \<Rightarrow> path \<Rightarrow> bool \<Rightarrow> bool \<Rightarrow> (exn + report) \<times> fs" where
  "process_pdf e fs pdf_path links_only dry_run =
     (case with_suffix pdf_path (suffix pdf_path @ ''.tmp'') of
        Inl ex \<Rightarrow> (Inl ex, fs)
      | Inr temp \<Rightarrow>
          (let stamps = get_file_times fs pdf_path
           in case process_pdf_try e fs pdf_path temp stamps links_only dry_run of
                (Inr r, fs1) \<Rightarrow> (Inr r, fs1)
              | (Inl ex, fs1) \<Rightarrow>
                  (if exists fs1 temp then
                     (case unlink e fs1 temp of
                        Inl ex2 \<Rightarrow> (Inl ex2, fs1)
                      | Inr fs2 \<Rightarrow> (Inr (False, - 1, - 1, Some (message ex)), fs2))
                   else (Inr (False, - 1, - 1, Some (message ex)), fs1))))"

section \<open>Renaming\<close>

subsection \<open>The string functions of the rename rules\<close>

text \<open>The characters that \<open>sanitize\<close> deletes: \<^verbatim>\<open>\ / : * ? " < > |\<close>.\<close>

definition illegal :: "char list" where
  "illegal = [CHR 0x5C, CHR ''/'', CHR '':'', CHR ''*'', CHR ''?'', CHR 0x22,
              CHR ''<'', CHR ''>'', CHR ''|'']"

definition sanitize :: "string \<Rightarrow> string" where
  "sanitize s = strip (filter (\<lambda>c. c \<notin> set illegal) s)"

text \<open>\<open>re.sub(r"X+", " ", s)\<close> for a class \<open>X\<close> of characters: every maximal run of
  characters of the class becomes one space.\<close>

fun collapse :: "(char \<Rightarrow> bool) \<Rightarrow> string \<Rightarrow> string" where
  "collapse P [] = []"
| "collapse P [x] = (if P x then '' '' else [x])"
| "collapse P (x # y # ys) =
     (if P x then (if P y then collapse P (y # ys) else CHR '' '' # collapse P (y # ys))
      else x # collapse P (y # ys))"

text \<open>\<open>s.split(sep, 1)\<close>: one part when \<open>sep\<close> does not occur in \<open>s\<close>, otherwise the
  text before its first occurrence and the text after it.\<close>

fun split1 :: "string \<Rightarrow> string \<Rightarrow> string list" where
  "split1 sep [] = [[]]"
| "split1 sep (x # xs) =
     (if startswith (x # xs) sep then [[], drop (length sep) (x # xs)]
      else (case split1 sep xs of
              [] \<Rightarrow> []
            | a # rest \<Rightarrow> (x # a) # rest))"

text \<open>\<open>str(i)\<close> for a natural number: its decimal digits.\<close>

fun str :: "nat \<Rightarrow> string" where
  "str n = (if n < 10 then [char_of (48 + n)] else str (n div 10) @ [char_of (48 + n mod 10)])"

declare str.simps [simp del]

subsection \<open>\<open>unique_path\<close>\<close>

text \<open>The candidate of the loop: \<open>p.with_stem(f"{p.stem} ({i})")\<close>.\<close>

definition candidate :: "path \<Rightarrow> nat \<Rightarrow> exn + path" where
  "candidate p i = with_stem p (stem p @ '' ('' @ str i @ '')'')"

text \<open>The \<open>while True\<close> loop of \<open>unique_path\<close>, from the counter \<open>i\<close> on.\<close>

function unique_loop :: "fs \<Rightarrow> path \<Rightarrow> nat \<Rightarrow> exn + path" where
  "unique_loop fs p i =
     (case candidate p i of
        Inl ex \<Rightarrow> Inl ex
      | Inr cand \<Rightarrow> if \<not> exists fs cand then Inr cand else unique_loop fs p (i + 1))"
  by pat_completeness auto

definition unique_path :: "fs \<Rightarrow> path \<Rightarrow> exn + path" where
  "unique_path fs p = (if \<not> exists fs p then Inr p else unique_loop fs p 1)"

subsection \<open>\<open>compute_rename\<close>\<close>

text \<open>
  The result is \<open>Inr None\<close> when no rename is needed, \<open>Inr (Some target)\<close> for a
  rename, and \<open>Inl\<close> when \<open>with_name\<close> or \<open>with_stem\<close> raises.
\<close>

definition compute_rename :: "fs \<Rightarrow> path \<Rightarrow> exn + path option" where
  "compute_rename fs pdf_path =
     (let name0 = stem pdf_path;
          name1 = (if endswith name0 ZLIB_SUFFIX
                   then take (length name0 - length ZLIB_SUFFIX) name0 else name0);
          name2 = (if startswith name1 PREFIX then
                     (let remainder = drop (length PREFIX) name1
                      in case split1 ''_-_'' remainder of
                           [title, author] \<Rightarrow> sanitize author @ '' - '' @ sanitize title
                         | _ \<Rightarrow> name1)
                   else name1);
          name3 = collapse (\<lambda>c. c = CHR ''_'') name2;
          name4 = strip (collapse is_space name3)
      in case with_name pdf_path (name4 @ suffix pdf_path) of
           Inl ex \<Rightarrow> Inl ex
         | Inr new_path \<Rightarrow>
             if new_path = pdf_path then Inr None
             else (case unique_path fs new_path of
                     Inl ex \<Rightarrow> Inl ex
                   | Inr target \<Rightarrow> Inr (Some target)))"

subsection \<open>\<open>rename_if_needed\<close>\<close>

text \<open>\<open>Path.rename\<close>, attempt number \<open>k\<close>: it raises an \<open>OSError\<close> or moves the file.\<close>

definition os_rename :: "env \<Rightarrow> nat \<Rightarrow> fs \<Rightarrow> path \<Rightarrow> path \<Rightarrow> exn + fs" where
  "os_rename e k fs src dst =
     (case fault e (Rename k) of
        Some msg \<Rightarrow> Inl (OSError msg)
      | None \<Rightarrow>
          (case fmlookup fs src of
             None \<Rightarrow> Inl (OSError ''No such file or directory'')
           | Some f \<Rightarrow> Inr (fmupd dst f (fmdrop src fs))))"

text \<open>The test of the handler:
  \<open>"cloud operation" in error_msg or "time-out" in error_msg\<close> on the lower-cased text.\<close>

definition is_cloud_error :: "string \<Rightarrow> bool" where
  "is_cloud_error msg =
     (contains (lower msg) ''cloud operation'' \<or> contains (lower msg) ''time-out'')"

text \<open>
  The loop \<open>for attempt in range(retries)\<close>, from \<open>attempt\<close> on.  The result is what
  \<open>rename_if_needed\<close> returns or raises, the file system, and the seconds slept.
\<close>

function rename_loop ::
  "env \<Rightarrow> fs \<Rightarrow> path \<Rightarrow> path \<Rightarrow> (int \<times> int \<times> int) option \<Rightarrow> int \<Rightarrow> nat \<Rightarrow> nat
    \<Rightarrow> (exn + bool \<times> path) \<times> fs \<times> nat" where
  "rename_loop e fs pdf_path new_path stamps retries attempt slept =
     (if int attempt < retries then
        (case os_rename e attempt fs pdf_path new_path of
           Inr fs1 \<Rightarrow> (Inr (True, new_path), restore_times e fs1 new_path stamps, slept)
         | Inl ex \<Rightarrow>
             if is_cloud_error (message ex) \<and> int attempt < retries - 1
             then rename_loop e fs pdf_path new_path stamps retries (attempt + 1) (slept + 1)
             else (Inl ex, fs, slept))
      else (Inr (False, pdf_path), fs, slept))"
  by pat_completeness auto
termination
  by (relation "measure (\<lambda>(e, fs, pdf_path, new_path, stamps, retries, attempt, slept).
                  nat (retries - int attempt))") auto

declare rename_loop.simps [simp del]

definition rename_if_needed ::
  "env \<Rightarrow> fs \<Rightarrow> path \<Rightarrow> bool \<Rightarrow> int \<Rightarrow> (exn + bool \<times> path) \<times> fs \<times> nat" where
  "rename_if_needed e fs pdf_path dry_run retries =
     (case compute_rename fs pdf_path of
        Inl ex \<Rightarrow> (Inl ex, fs, 0)
      | Inr None \<Rightarrow> (Inr (False, pdf_path), fs, 0)
      | Inr (Some new_path) \<Rightarrow>
          (let stamps = get_file_times fs pdf_path
           in if dry_run then (Inr (True, new_path), fs, 0)
              else rename_loop e fs pdf_path new_path stamps retries 0 0))"

text \<open>The default of the parameter \<open>retries\<close>.\<close>

definition default_retries :: int where
  "default_retries = 3"

section \<open>Notions used in the proofs\<close>

text \<open>The spans of a page in the order of the three loops, and the pages on which the
  second pass finds nothing to do.\<close>

definition spans_of :: "page \<Rightarrow> span list" where
  "spans_of pg = concat (concat (blocks pg))"

definition settled :: "page \<Rightarrow> bool" where
  "settled pg = (page_might_contain_phrase pg \<longrightarrow> (\<forall>sp \<in> set (spans_of pg). \<not> span_matches sp))"


text \<open>The counters from \<open>i\<close> on whose candidate exists: the loop of \<open>unique_path\<close>
  leaves one of them behind at every turn.\<close>

definition taken :: "fs \<Rightarrow> path \<Rightarrow> nat \<Rightarrow> nat set" where
  "taken fs p i = {j. i \<le> j \<and> (\<exists>c. candidate p j = Inr c \<and> exists fs c)}"


text \<open>Rule 3 of \<open>compute_rename\<close> as one function, strings without two adjacent characters
  of a class, and the titles and authors that the rules leave as they are: not empty, no
  illegal character, no underscore, no white space but single spaces inside.\<close>

definition normalize :: "string \<Rightarrow> string" where
  "normalize s = strip (collapse is_space (collapse (\<lambda>c. c = CHR ''_'') s))"

fun no_runs :: "(char \<Rightarrow> bool) \<Rightarrow> string \<Rightarrow> bool" where
  "no_runs P [] = True"
| "no_runs P [x] = True"
| "no_runs P (x # y # ys) = (\<not> (P x \<and> P y) \<and> no_runs P (y # ys))"

definition tidy :: "string \<Rightarrow> bool" where
  "tidy s =
     (s \<noteq> []
      \<and> list_all (\<lambda>c. c \<notin> set illegal \<and> c \<noteq> CHR ''_'' \<and> (\<not> is_space c \<or> c = CHR '' '')) s
      \<and> \<not> is_space (hd s) \<and> \<not> is_space (last s) \<and> no_runs is_space s)"




section \<open>Sample inputs\<close>

text \<open>Concrete files, documents and fault assignments on which the results below are run.\<close>

definition book :: path where
  "book = \<lparr>parent = ''/books'', name = ''a.pdf''\<rparr>"

definition book_tmp :: path where
  "book_tmp = \<lparr>parent = ''/books'', name = ''a.pdf.tmp''\<rparr>"

definition clean_page :: page where
  "clean_page = \<lparr>links = [], blocks = [], redact_annots = []\<rparr>"

definition marked_span :: span where
  "marked_span = \<lparr>span_text = ''OceanofPDF.com'', span_bbox = (0, 0, 90, 12)\<rparr>"

definition marked_page :: page where
  "marked_page = \<lparr>links = [], blocks = [[[marked_span]]], redact_annots = []\<rparr>"

definition quiet :: env where
  "quiet = \<lparr>fault = (\<lambda>s. None),
             save_partial = False, copy_partial = False, atime_on_read = False, now = 100\<rparr>"


definition shelf :: "document \<Rightarrow> fs" where
  "shelf doc = fmupd book \<lparr>content = doc, atime = 1, mtime = 2\<rparr> fmempty"

definition unreadable :: env where
  "unreadable = \<lparr>fault = (\<lambda>s. if s = Open then Some ''cannot open broken document'' else None),
                  save_partial = False, copy_partial = False, atime_on_read = False,
                  now = 100\<rparr>"





definition gatsby :: path where
  "gatsby = \<lparr>parent = ''/books'', name = ''_OceanofPDFs.com_Gatsby_-_Fitzgerald.pdf''\<rparr>"

definition gatsby_clean :: path where
  "gatsby_clean = \<lparr>parent = ''/books'', name = ''Fitzgerald - Gatsby.pdf''\<rparr>"

definition underscored :: path where
  "underscored = \<lparr>parent = ''/books'', name = ''_OceanofPDFs.com_Book_Title_-_Author.pdf''\<rparr>"

definition unsplit :: path where
  "unsplit = \<lparr>parent = ''/books'', name = ''_OceanofPDFs.com_Book.pdf''\<rparr>"

definition crowded :: fs where
  "crowded = fmupd \<lparr>parent = ''/books'', name = ''a (1).pdf''\<rparr>
               \<lparr>content = [clean_page], atime = 3, mtime = 4\<rparr> (shelf [clean_page])"

definition library :: fs where
  "library = fmupd gatsby \<lparr>content = [clean_page], atime = 1, mtime = 2\<rparr> fmempty"

definition flaky :: env where
  "flaky = \<lparr>fault = (\<lambda>s. if s = Rename 0 then Some ''The Cloud Operation was not completed''
                         else if s = Rename 1 then Some ''sync TIME-OUT'' else None),
             save_partial = False, copy_partial = False, atime_on_read = False, now = 100\<rparr>"


section \<open>Facts about strings\<close>

lemma lower_char_not_upper:
  "\<not> (65 \<le> (of_char (lower_char c) :: nat) \<and> (of_char (lower_char c) :: nat) \<le> 90)"
  by (auto simp: lower_char_def Let_def)

lemma startswith_set: "startswith s t \<Longrightarrow> set t \<subseteq> set s"
  by (induction s t rule: startswith.induct) auto

lemma contains_set: "contains s t \<Longrightarrow> set t \<subseteq> set s"
proof (induction s)
  case Nil
  then show ?case by simp
next
  case (Cons x xs)
  from Cons.prems have "startswith (x # xs) t \<or> contains xs t" by simp
  then show ?case
  proof
    assume "startswith (x # xs) t"
    then show ?thesis by (rule startswith_set)
  next
    assume "contains xs t"
    then have "set t \<subseteq> set xs" by (rule Cons.IH)
    then show ?thesis by auto
  qed
qed

lemma lower_never_contains_URI_MATCH: "\<not> contains (lower s) URI_MATCH"
proof
  assume "contains (lower s) URI_MATCH"
  then have "CHR ''O'' \<in> set (lower s)"
    using contains_set [of "lower s" URI_MATCH] by (auto simp: URI_MATCH_def)
  then obtain c where "lower_char c = CHR ''O''"
    by (auto simp: lower_def)
  with lower_char_not_upper [of c] show False by simp
qed

lemma link_never_matches: "\<not> link_matches l"
  by (simp add: link_matches_def lower_never_contains_URI_MATCH)

lemma remove_links_loop_keeps: "remove_links_loop ls (kept, n) = (kept @ ls, n)"
  by (induction ls arbitrary: kept) (simp_all add: link_never_matches)

lemma remove_links_noop: "remove_links pg = (pg, 0)"
  by (simp add: remove_links_def remove_links_loop_keeps)

section \<open>Facts about paths\<close>

lemma suffix_drop:
  "length (suffix p) \<le> length (name p) \<and>
   drop (length (name p) - length (suffix p)) (name p) = suffix p"
proof (cases "suffix p = []")
  case True
  then show ?thesis by simp
next
  case False
  define r where "r = takeWhile (\<lambda>c. c \<noteq> CHR ''.'') (rev (name p))"
  define q where "q = dropWhile (\<lambda>c. c \<noteq> CHR ''.'') (rev (name p))"
  from False have c: "CHR ''.'' \<in> set (name p)" and s: "suffix p = CHR ''.'' # rev r"
    by (auto simp: suffix_def Let_def r_def split: if_splits)
  have rq: "rev (name p) = r @ q"
    by (simp add: r_def q_def)
  from c have "q \<noteq> []"
    by (simp add: q_def dropWhile_eq_Nil_conv)
  then obtain y ys where q: "q = y # ys" by (cases q) auto
  have "\<not> (hd q \<noteq> CHR ''.'')"
    unfolding q_def using \<open>q \<noteq> []\<close> [unfolded q_def] by (rule hd_dropWhile)
  with q have y: "y = CHR ''.''" by simp
  from rq q y have "rev (rev (name p)) = rev (r @ CHR ''.'' # ys)" by simp
  then have "name p = rev ys @ CHR ''.'' # rev r" by simp
  with s show ?thesis by simp
qed

lemma stem_suffix: "stem p @ suffix p = name p"
proof -
  have "take (length (name p) - length (suffix p)) (name p)
        @ drop (length (name p) - length (suffix p)) (name p) = name p"
    by (rule append_take_drop_id)
  then show ?thesis by (simp add: stem_def suffix_drop)
qed


section \<open>Facts about the passes and the try body\<close>

lemma pass_links_noop: "pass_links e k doc = Inr (d, n) \<Longrightarrow> d = doc \<and> n = 0"
proof (induction doc arbitrary: k d n)
  case Nil
  then show ?case by simp
next
  case (Cons pg pgs)
  from Cons.prems obtain d' n' where r: "pass_links e (Suc k) pgs = Inr (d', n')"
    and d: "d = pg # d'" and n: "n = 0 + n'"
    by (auto simp: remove_links_noop split: option.splits sum.splits)
  from Cons.IH [OF r] d n show ?case by simp
qed



lemma fitz_open_frame: "fitz_open e fs p = (r, fs0) \<Longrightarrow> q \<noteq> p \<Longrightarrow> fmlookup fs0 q = fmlookup fs q"
  by (auto simp: fitz_open_def Let_def split: option.splits if_splits)




lemma try_success_report:
  assumes "process_pdf_try e fs pdf_path temp st links_only dry_run = (Inr (c, t, l, err), fs1)"
  shows "err = None"
  using assms unfolding process_pdf_try_def Let_def
  by (auto split: sum.splits option.splits prod.splits if_splits)

section \<open>Facts about the redaction\<close>

lemma spans_of_apply:
  "set (spans_of (apply_redactions pg)) = {sp \<in> set (spans_of pg). span_bbox sp \<notin> set (redact_annots pg)}"
  by (auto simp: spans_of_def apply_redactions_def)

lemma redact_phrase_cases:
  assumes "redact_phrase pg = (pg', n)"
  shows "(pg' = pg \<and> n = 0 \<and> (\<forall>sp \<in> set (spans_of pg). \<not> span_matches sp))
       \<or> (\<forall>sp \<in> set (spans_of pg'). \<not> span_matches sp)"
proof (cases "filter span_matches (spans_of pg) = []")
  case True
  then have "pg' = pg \<and> n = 0"
    using assms by (simp add: redact_phrase_def spans_of_def Let_def)
  moreover from True have "\<forall>sp \<in> set (spans_of pg). \<not> span_matches sp"
    by (simp add: filter_empty_conv)
  ultimately show ?thesis by blast
next
  case False
  define pg1 where "pg1 = pg\<lparr>redact_annots := redact_annots pg @ map span_bbox (filter span_matches (spans_of pg))\<rparr>"
  from False assms have p: "pg' = apply_redactions pg1"
    by (auto simp: redact_phrase_def spans_of_def Let_def pg1_def)
  have "\<forall>sp \<in> set (spans_of pg'). \<not> span_matches sp"
  proof
    fix sp assume "sp \<in> set (spans_of pg')"
    then have a: "sp \<in> set (spans_of pg1)" and b: "span_bbox sp \<notin> set (redact_annots pg1)"
      by (simp_all add: p spans_of_apply)
    from a have "sp \<in> set (spans_of pg)" by (simp add: pg1_def spans_of_def)
    with b show "\<not> span_matches sp" by (auto simp: pg1_def)
  qed
  then show ?thesis by blast
qed

lemma redact_phrase_clean:
  assumes "\<forall>sp \<in> set (spans_of pg). \<not> span_matches sp"
  shows "redact_phrase pg = (pg, 0)"
proof -
  from assms have "filter span_matches (spans_of pg) = []"
    by (simp add: filter_empty_conv)
  then show ?thesis by (simp add: redact_phrase_def spans_of_def Let_def)
qed

lemma settled_step:
  "settled (fst (if page_might_contain_phrase pg then redact_phrase pg else (pg, 0)))"
proof (cases "page_might_contain_phrase pg")
  case False
  then show ?thesis by (simp add: settled_def)
next
  case True
  obtain pg' n where r: "redact_phrase pg = (pg', n)" by (cases "redact_phrase pg")
  from redact_phrase_cases [OF r] have "settled pg'" by (auto simp: settled_def)
  with True r show ?thesis by simp
qed

lemma settled_fixed:
  "settled pg \<Longrightarrow> (if page_might_contain_phrase pg then redact_phrase pg else (pg, 0)) = (pg, 0)"
  by (simp add: settled_def redact_phrase_clean)

lemma pass_text_settles:
  "pass_text e k doc = Inr (d, n) \<Longrightarrow> list_all settled d"
proof (induction doc arbitrary: k d n)
  case Nil
  then show ?case by simp
next
  case (Cons pg pgs)
  obtain pg' m where s: "(if page_might_contain_phrase pg then redact_phrase pg else (pg, 0)) = (pg', m)"
    by (cases "if page_might_contain_phrase pg then redact_phrase pg else (pg, 0)")
  from Cons.prems s obtain d' n' where r: "pass_text e (Suc k) pgs = Inr (d', n')" and d: "d = pg' # d'"
    by (auto split: option.splits sum.splits simp del: split_paired_All)
  from settled_step [of pg] s have "settled pg'" by simp
  with Cons.IH [OF r] d show ?case by simp
qed

lemma pass_text_length:
  "pass_text e k doc = Inr (d, n) \<Longrightarrow> length d = length doc"
proof (induction doc arbitrary: k d n)
  case Nil
  then show ?case by simp
next
  case (Cons pg pgs)
  obtain pg' m where s: "(if page_might_contain_phrase pg then redact_phrase pg else (pg, 0)) = (pg', m)"
    by (cases "if page_might_contain_phrase pg then redact_phrase pg else (pg, 0)")
  from Cons.prems s obtain d' n' where r: "pass_text e (Suc k) pgs = Inr (d', n')" and d: "d = pg' # d'"
    by (auto split: option.splits sum.splits)
  from Cons.IH [OF r] d show ?case by simp
qed

lemma pass_text_faults:
  "pass_text e k doc = Inr (d, n) \<Longrightarrow> \<forall>i < length doc. fault e (Redact (k + i)) = None"
proof (induction doc arbitrary: k d n)
  case Nil
  then show ?case by simp
next
  case (Cons pg pgs)
  obtain pg' m where s: "(if page_might_contain_phrase pg then redact_phrase pg else (pg, 0)) = (pg', m)"
    by (cases "if page_might_contain_phrase pg then redact_phrase pg else (pg, 0)")
  from Cons.prems s obtain d' n' where r: "pass_text e (Suc k) pgs = Inr (d', n')"
    and f: "fault e (Redact k) = None"
    by (auto split: option.splits sum.splits)
  show ?case
  proof (intro allI impI)
    fix i assume i: "i < length (pg # pgs)"
    show "fault e (Redact (k + i)) = None"
    proof (cases i)
      case 0
      with f show ?thesis by simp
    next
      case (Suc j)
      with i Cons.IH [OF r] show ?thesis by simp
    qed
  qed
qed

lemma pass_text_settled:
  "list_all settled doc \<Longrightarrow> \<forall>i < length doc. fault e (Redact (k + i)) = None
    \<Longrightarrow> pass_text e k doc = Inr (doc, 0)"
proof (induction doc arbitrary: k)
  case Nil
  then show ?case by simp
next
  case (Cons pg pgs)
  from Cons.prems(2) have f: "fault e (Redact k) = None" by force
  from Cons.prems(2) have "\<forall>i < length pgs. fault e (Redact (Suc k + i)) = None" by force
  with Cons.IH [of "Suc k"] Cons.prems(1) have r: "pass_text e (Suc k) pgs = Inr (pgs, 0)" by simp
  from Cons.prems(1) have "settled pg" by simp
  then show ?case by (simp add: f r settled_fixed)
qed

lemma pass_links_faults:
  "pass_links e k doc = Inr (d, n) \<Longrightarrow> \<forall>i < length doc. fault e (Links (k + i)) = None"
proof (induction doc arbitrary: k d n)
  case Nil
  then show ?case by simp
next
  case (Cons pg pgs)
  from Cons.prems obtain d' n' where r: "pass_links e (Suc k) pgs = Inr (d', n')"
    and f: "fault e (Links k) = None"
    by (auto simp: remove_links_noop split: option.splits sum.splits)
  show ?case
  proof (intro allI impI)
    fix i assume i: "i < length (pg # pgs)"
    show "fault e (Links (k + i)) = None"
    proof (cases i)
      case 0
      with f show ?thesis by simp
    next
      case (Suc j)
      with i Cons.IH [OF r] show ?thesis by simp
    qed
  qed
qed

lemma pass_links_quiet:
  "\<forall>i < length doc. fault e (Links (k + i)) = None \<Longrightarrow> pass_links e k doc = Inr (doc, 0)"
proof (induction doc arbitrary: k)
  case Nil
  then show ?case by simp
next
  case (Cons pg pgs)
  from Cons.prems have f: "fault e (Links k) = None" by force
  from Cons.prems have "\<forall>i < length pgs. fault e (Links (Suc k + i)) = None" by force
  with Cons.IH [of "Suc k"] have r: "pass_links e (Suc k) pgs = Inr (pgs, 0)" by simp
  show ?case by (simp add: f r remove_links_noop)
qed


section \<open>Facts about \<open>unique_path\<close>\<close>

lemma digit_inj: "a < 10 \<Longrightarrow> b < 10 \<Longrightarrow> char_of (48 + a) = (char_of (48 + b) :: char) \<Longrightarrow> a = (b::nat)"
proof -
  assume a: "a < 10" and b: "b < 10" and e: "char_of (48 + a) = (char_of (48 + b) :: char)"
  from e have "of_char (char_of (48 + a) :: char) = (of_char (char_of (48 + b) :: char) :: nat)" by simp
  then have "(48 + a) mod 256 = (48 + b) mod 256" by (simp only: of_char_of)
  with a b show "a = b" by simp
qed

lemma str_nonempty: "str n \<noteq> []"
  by (subst str.simps) simp

lemma str_inj: "str n = str m \<Longrightarrow> n = m"
proof (induction n arbitrary: m rule: str.induct)
  case (1 n)
  show ?case
  proof (cases "n < 10")
    case True
    then have sn: "str n = [char_of (48 + n)]" by (subst str.simps) simp
    show ?thesis
    proof (cases "m < 10")
      case m: True
      then have "str m = [char_of (48 + m)]" by (subst str.simps) simp
      with sn "1.prems" have "char_of (48 + n) = (char_of (48 + m) :: char)" by simp
      with True m show ?thesis by (rule digit_inj)
    next
      case m: False
      then have "str m = str (m div 10) @ [char_of (48 + m mod 10)]" by (subst str.simps) simp
      with sn "1.prems" have "str (m div 10) = []" by simp
      with str_nonempty show ?thesis by blast
    qed
  next
    case False
    then have sn: "str n = str (n div 10) @ [char_of (48 + n mod 10)]" by (subst str.simps) simp
    show ?thesis
    proof (cases "m < 10")
      case m: True
      then have "str m = [char_of (48 + m)]" by (subst str.simps) simp
      with sn "1.prems" have "str (n div 10) = []" by simp
      with str_nonempty show ?thesis by blast
    next
      case m: False
      then have "str m = str (m div 10) @ [char_of (48 + m mod 10)]" by (subst str.simps) simp
      with sn "1.prems" have a: "str (n div 10) = str (m div 10)"
        and b: "char_of (48 + n mod 10) = (char_of (48 + m mod 10) :: char)" by simp_all
      from "1.IH" [OF False a] have d: "n div 10 = m div 10" .
      have "n mod 10 = m mod 10" by (rule digit_inj [OF _ _ b]) simp_all
      moreover have "n = 10 * (n div 10) + n mod 10" and "m = 10 * (m div 10) + m mod 10"
        by simp_all
      ultimately show ?thesis using d by simp
    qed
  qed
qed

lemma candidate_name:
  "candidate p i = Inr c \<Longrightarrow> c = p\<lparr>name := stem p @ '' ('' @ str i @ '')'' @ suffix p\<rparr>"
  by (auto simp: candidate_def with_stem_def with_name_def split: if_splits)

lemma candidate_inj:
  assumes "candidate p i = Inr c" and "candidate p j = Inr c"
  shows "i = j"
proof -
  from candidate_name [OF assms(1)] candidate_name [OF assms(2)]
  have "name (p\<lparr>name := stem p @ '' ('' @ str i @ '')'' @ suffix p\<rparr>)
      = name (p\<lparr>name := stem p @ '' ('' @ str j @ '')'' @ suffix p\<rparr>)" by simp
  then have "str i @ ('')'' @ suffix p) = str j @ ('')'' @ suffix p)" by simp
  then have "str i = str j" by (simp only: append_same_eq)
  then show ?thesis by (rule str_inj)
qed

lemma finite_taken: "finite (taken fs p i)"
proof -
  define g where "g = (\<lambda>c. THE j. candidate p j = Inr c)"
  have "taken fs p i \<subseteq> g ` fmdom' fs"
  proof
    fix j assume "j \<in> taken fs p i"
    then obtain c where c: "candidate p j = Inr c" and e: "exists fs c"
      by (auto simp: taken_def)
    from c have "g c = j"
      unfolding g_def by (rule the_equality) (rule candidate_inj [OF _ c])
    moreover from e have "c \<in> fmdom' fs"
      by (auto simp: exists_def fmlookup_dom'_iff)
    ultimately show "j \<in> g ` fmdom' fs" by blast
  qed
  then show ?thesis by (rule finite_subset) simp
qed

lemma taken_step:
  assumes "candidate p i = Inr c" and "exists fs c"
  shows "card (taken fs p (Suc i)) < card (taken fs p i)"
proof -
  have "i \<in> taken fs p i" using assms by (auto simp: taken_def)
  moreover have "i \<notin> taken fs p (Suc i)" by (simp add: taken_def)
  moreover have "taken fs p (Suc i) \<subseteq> taken fs p i" by (auto simp: taken_def)
  ultimately have "taken fs p (Suc i) \<subset> taken fs p i" by blast
  then show ?thesis by (rule psubset_card_mono [OF finite_taken])
qed

termination unique_loop
  by (relation "measure (\<lambda>(fs, p, i). card (taken fs p i))") (auto intro: taken_step)

lemma candidate_ok:
  assumes "name p \<noteq> []" and "CHR ''/'' \<notin> set (name p)"
  shows "candidate p i = Inr (p\<lparr>name := stem p @ '' ('' @ str i @ '')'' @ suffix p\<rparr>)"
proof -
  have "set (stem p) \<subseteq> set (name p)" and "set (suffix p) \<subseteq> set (name p)"
    using stem_suffix [of p] by (metis Un_upper1 set_append, metis Un_upper2 set_append)
  with assms(2) have a: "CHR ''/'' \<notin> set (stem p)" and b: "CHR ''/'' \<notin> set (suffix p)" by auto
  have "CHR ''/'' \<notin> set (str i)"
  proof (induction i rule: str.induct)
    case (1 n)
    have d: "\<And>k::nat. k < 10 \<Longrightarrow> char_of (48 + k) \<noteq> CHR ''/''"
    proof
      fix k :: nat assume k: "k < 10" and e: "char_of (48 + k) = CHR ''/''"
      from e have "of_char (char_of (48 + k) :: char) = (of_char CHR ''/'' :: nat)" by simp
      then have "(48 + k) mod 256 = 47" by (simp only: of_char_of) simp
      with k show False by simp
    qed
    show ?case
    proof (cases "n < 10")
      case True
      then show ?thesis using d [of n] by (subst str.simps) simp
    next
      case False
      with "1.IH" d [of "n mod 10"] show ?thesis by (subst str.simps) simp
    qed
  qed
  with a b assms(1) show ?thesis
    by (simp add: candidate_def with_stem_def with_name_def)
qed

declare unique_loop.simps [simp del]

lemma unique_loop_spec:
  "name p \<noteq> [] \<Longrightarrow> CHR ''/'' \<notin> set (name p) \<Longrightarrow>
   \<exists>r k. i \<le> k \<and> unique_loop fs p i = Inr r \<and> candidate p k = Inr r \<and> \<not> exists fs r
         \<and> (\<forall>j. i \<le> j \<and> j < k \<longrightarrow> (\<exists>c. candidate p j = Inr c \<and> exists fs c))"
proof (induction fs p i rule: unique_loop.induct)
  case (1 fs p i)
  define c where "c = p\<lparr>name := stem p @ '' ('' @ str i @ '')'' @ suffix p\<rparr>"
  have c: "candidate p i = Inr c"
    unfolding c_def by (rule candidate_ok [OF "1.prems"])
  show ?case
  proof (cases "exists fs c")
    case False
    with c have "unique_loop fs p i = Inr c"
      by (subst unique_loop.simps) simp
    with c False show ?thesis by (intro exI [of _ c] exI [of _ i]) auto
  next
    case True
    with c have u: "unique_loop fs p i = unique_loop fs p (i + 1)"
      by (subst unique_loop.simps) simp
    from "1.IH" [OF c _ "1.prems"] True
    obtain r k where k: "i + 1 \<le> k" and r: "unique_loop fs p (i + 1) = Inr r"
      and ck: "candidate p k = Inr r" and nr: "\<not> exists fs r"
      and before: "\<forall>j. i + 1 \<le> j \<and> j < k \<longrightarrow> (\<exists>c. candidate p j = Inr c \<and> exists fs c)"
      by auto
    have "\<forall>j. i \<le> j \<and> j < k \<longrightarrow> (\<exists>c. candidate p j = Inr c \<and> exists fs c)"
    proof (intro allI impI)
      fix j assume j: "i \<le> j \<and> j < k"
      show "\<exists>c. candidate p j = Inr c \<and> exists fs c"
      proof (cases "j = i")
        case True
        with c \<open>exists fs c\<close> show ?thesis by blast
      next
        case False
        with j have "i + 1 \<le> j \<and> j < k" by simp
        with before show ?thesis by blast
      qed
    qed
    with k r ck nr u show ?thesis
      by (intro exI [of _ r] exI [of _ k]) auto
  qed
qed


section \<open>Facts about the rename rules\<close>

lemma space_is_space: "is_space CHR '' ''"
  by code_simp

lemma dash_not_space: "\<not> is_space CHR ''-''"
  by code_simp

lemma collapse_none: "\<forall>c \<in> set s. \<not> P c \<Longrightarrow> collapse P s = s"
  by (induction P s rule: collapse.induct) auto

lemma collapse_single:
  "\<forall>c \<in> set s. P c \<longrightarrow> c = CHR '' '' \<Longrightarrow> no_runs P s \<Longrightarrow> collapse P s = s"
  by (induction P s rule: collapse.induct) auto

lemma no_runs_append:
  "no_runs P xs \<Longrightarrow> no_runs P ys \<Longrightarrow> (xs \<noteq> [] \<and> ys \<noteq> [] \<longrightarrow> \<not> (P (last xs) \<and> P (hd ys)))
    \<Longrightarrow> no_runs P (xs @ ys)"
proof (induction P xs rule: no_runs.induct)
  case (1 P)
  then show ?case by simp
next
  case (2 P x)
  then show ?case by (cases ys) auto
next
  case (3 P x y ys)
  then show ?case by auto
qed

lemma strip_id: "s \<noteq> [] \<Longrightarrow> \<not> is_space (hd s) \<Longrightarrow> \<not> is_space (last s) \<Longrightarrow> strip s = s"
proof -
  assume s: "s \<noteq> []" and h: "\<not> is_space (hd s)" and l: "\<not> is_space (last s)"
  from s h have a: "dropWhile is_space s = s" by (cases s) auto
  from s have "rev s \<noteq> []" by simp
  moreover from s l have "\<not> is_space (hd (rev s))" by (simp add: hd_rev)
  ultimately have "dropWhile is_space (rev s) = rev s" by (cases "rev s") auto
  with a show ?thesis by (simp add: strip_def)
qed

lemma sanitize_tidy: "tidy s \<Longrightarrow> sanitize s = s"
proof -
  assume t: "tidy s"
  then have "filter (\<lambda>c. c \<notin> set illegal) s = s"
    by (auto simp: tidy_def list_all_iff intro: filter_True)
  with t show ?thesis by (simp add: sanitize_def tidy_def strip_id)
qed

lemma split1_at:
  "CHR ''_'' \<notin> set t \<Longrightarrow> split1 ''_-_'' (t @ ''_-_'' @ a) = [t, a]"
  by (induction t) auto

lemma split1_absent:
  "\<not> contains r sep \<Longrightarrow> split1 sep r = [r]"
  by (induction r) auto

lemma startswith_append: "startswith (p @ r) p"
  by (induction p) auto

lemma pdf_suffix:
  assumes "name p = s @ ''.pdf''" and "s \<noteq> []"
  shows "suffix p = ''.pdf''" and "stem p = s"
proof -
  from assms show a: "suffix p = ''.pdf''"
    by (simp add: suffix_def)
  with assms(1) show "stem p = s"
    by (simp add: stem_def)
qed

lemma startswith_split: "startswith u v \<Longrightarrow> \<exists>w. u = v @ w"
  by (induction u v rule: startswith.induct) auto

lemma not_zlib:
  assumes "CHR ''_'' \<notin> set a" and "a \<noteq> []" and "\<not> is_space (hd a)"
  shows "\<not> endswith (x @ ''_-_'' @ a) ZLIB_SUFFIX"
proof
  assume "endswith (x @ ''_-_'' @ a) ZLIB_SUFFIX"
  then have "startswith (rev a @ ''_-_'' @ rev x) '')yrarbiL-Z( _''"
    by (simp add: endswith_def ZLIB_SUFFIX_def)
  then obtain w where w: "rev a @ ''_-_'' @ rev x = '')yrarbiL-Z( _'' @ w"
    by (blast dest: startswith_split)
  have "takeWhile (\<lambda>c. c \<noteq> CHR ''_'') (rev a @ (''_-_'' @ rev x))
          = rev a @ takeWhile (\<lambda>c. c \<noteq> CHR ''_'') (''_-_'' @ rev x)"
    by (rule takeWhile_append2) (use assms(1) in auto)
  then have "takeWhile (\<lambda>c. c \<noteq> CHR ''_'') (rev a @ ''_-_'' @ rev x) = rev a"
    by simp
  moreover have "takeWhile (\<lambda>c. c \<noteq> CHR ''_'') ('')yrarbiL-Z( _'' @ w) = '')yrarbiL-Z( ''"
    by simp
  ultimately have "rev a = '')yrarbiL-Z( ''" using w by simp
  then have "rev (rev a) = rev '')yrarbiL-Z( ''" by (rule arg_cong)
  then have "a = '' (Z-Library)''" by simp
  then have "hd a = CHR '' ''" by simp
  with assms(3) space_is_space show False by simp
qed

lemma tidy_facts:
  assumes "tidy s"
  shows "s \<noteq> []" and "CHR ''_'' \<notin> set s" and "CHR ''/'' \<notin> set s"
    and "\<forall>c \<in> set s. is_space c \<longrightarrow> c = CHR '' ''"
    and "\<not> is_space (hd s)" and "\<not> is_space (last s)" and "no_runs is_space s"
  using assms by (auto simp: tidy_def list_all_iff illegal_def)

lemma joined_normal:
  assumes "tidy T" and "tidy A"
  shows "collapse (\<lambda>c. c = CHR ''_'') (A @ '' - '' @ T) = A @ '' - '' @ T"
    and "collapse is_space (A @ '' - '' @ T) = A @ '' - '' @ T"
    and "strip (A @ '' - '' @ T) = A @ '' - '' @ T"
proof -
  note t = tidy_facts [OF assms(1)] and a = tidy_facts [OF assms(2)]
  show "collapse (\<lambda>c. c = CHR ''_'') (A @ '' - '' @ T) = A @ '' - '' @ T"
    using t(2) a(2) by (intro collapse_none) auto
  obtain x xs where T: "T = x # xs" using t(1) by (cases T) auto
  with t(5) have x: "\<not> is_space x" by simp
  from t(7) T x have "no_runs is_space (CHR '' '' # x # xs)" by simp
  then have "no_runs is_space (CHR ''-'' # CHR '' '' # x # xs)"
    by (simp add: dash_not_space)
  then have "no_runs is_space (CHR '' '' # CHR ''-'' # CHR '' '' # x # xs)"
    by (simp add: dash_not_space)
  then have d: "no_runs is_space ('' - '' @ T)" by (simp add: T)
  have "no_runs is_space (A @ ('' - '' @ T))"
    by (rule no_runs_append [OF a(7) d]) (use a(6) in simp)
  then have "no_runs is_space (A @ '' - '' @ T)" by simp
  moreover have "\<forall>c \<in> set (A @ '' - '' @ T). is_space c \<longrightarrow> c = CHR '' ''"
    using t(4) a(4) dash_not_space by auto
  ultimately show "collapse is_space (A @ '' - '' @ T) = A @ '' - '' @ T"
    by (intro collapse_single)
  show "strip (A @ '' - '' @ T) = A @ '' - '' @ T"
    using t(1,6) a(1,5) by (intro strip_id) auto
qed


lemma collapse_keep: "\<not> P x \<Longrightarrow> collapse P (x # xs) = x # collapse P xs"
  by (cases xs) auto

lemma collapse_word: "\<forall>c \<in> set u. \<not> P c \<Longrightarrow> collapse P (u @ v) = u @ collapse P v"
  by (induction u) (auto simp: collapse_keep)

lemma collapse_lead: "P x \<Longrightarrow> \<not> P y \<Longrightarrow> collapse P (x # y # ys) = CHR '' '' # collapse P (y # ys)"
  by simp

lemma set_collapse: "set (collapse P s) \<subseteq> insert CHR '' '' (set s)"
  by (induction P s rule: collapse.induct) auto

lemma set_strip: "set (strip s) \<subseteq> set s"
proof -
  have "set (strip s) = set (dropWhile is_space (rev (dropWhile is_space s)))"
    by (simp add: strip_def)
  also have "\<dots> \<subseteq> set (rev (dropWhile is_space s))" by (auto dest: set_dropWhileD)
  also have "\<dots> \<subseteq> set s" by (auto dest: set_dropWhileD)
  finally show ?thesis .
qed

lemma set_normalize: "set (normalize s) \<subseteq> insert CHR '' '' (set s)"
proof -
  have "set (normalize s) \<subseteq> set (collapse is_space (collapse (\<lambda>c. c = CHR ''_'') s))"
    unfolding normalize_def by (rule set_strip)
  also have "\<dots> \<subseteq> insert CHR '' '' (set (collapse (\<lambda>c. c = CHR ''_'') s))"
    by (rule set_collapse)
  also have "\<dots> \<subseteq> insert CHR '' '' (insert CHR '' '' (set s))"
    using set_collapse [of "\<lambda>c. c = CHR ''_''" s] by auto
  finally show ?thesis by simp
qed

lemma rstrip_word:
  assumes "u \<noteq> []" and "\<not> P (last u)"
  shows "rev (dropWhile P (rev (u @ v))) = u @ rev (dropWhile P (rev v))"
proof -
  from assms have k: "dropWhile P (rev u) = rev u"
    by (cases "rev u") (auto simp: last_rev hd_rev)
  show ?thesis
  proof (cases "\<forall>x \<in> set (rev v). P x")
    case True
    then have "dropWhile P (rev v) = []" by simp
    moreover from True have "dropWhile P (rev v @ rev u) = dropWhile P (rev u)"
      by (simp add: dropWhile_append)
    ultimately show ?thesis by (simp add: k)
  next
    case False
    then have "dropWhile P (rev v @ rev u) = dropWhile P (rev v) @ rev u"
      by (auto simp: dropWhile_append)
    then show ?thesis by simp
  qed
qed

lemma domain_not_space: "\<forall>c \<in> set ''OceanofPDFs.com''. \<not> is_space c"
  by code_simp

lemma normalize_prefixed: "\<exists>z. normalize (PREFIX @ r) = ''OceanofPDFs.com'' @ z"
proof -
  define U where "U = (\<lambda>c. c = CHR ''_'')"
  define w where "w = collapse U (CHR ''_'' # r)"
  have "collapse U (PREFIX @ r) = collapse U (CHR ''_'' # CHR ''O'' # (''ceanofPDFs.com'' @ CHR ''_'' # r))"
    by (simp add: PREFIX_def)
  also have "\<dots> = CHR '' '' # collapse U (''OceanofPDFs.com'' @ CHR ''_'' # r)"
    by (simp add: U_def)
  also have "\<dots> = CHR '' '' # ''OceanofPDFs.com'' @ w"
    unfolding w_def by (subst collapse_word) (simp_all add: U_def)
  finally have a: "collapse U (PREFIX @ r) = CHR '' '' # CHR ''O'' # (''ceanofPDFs.com'' @ w)" by simp
  have o: "\<not> is_space CHR ''O''" using domain_not_space by simp
  have "collapse is_space (CHR '' '' # CHR ''O'' # (''ceanofPDFs.com'' @ w))
        = CHR '' '' # collapse is_space (''OceanofPDFs.com'' @ w)"
    using space_is_space o by simp
  also have "\<dots> = CHR '' '' # ''OceanofPDFs.com'' @ collapse is_space w"
    by (subst collapse_word) (use domain_not_space in simp_all)
  finally have b: "collapse is_space (collapse U (PREFIX @ r))
                   = CHR '' '' # (''OceanofPDFs.com'' @ collapse is_space w)"
    by (simp add: a)
  have "dropWhile is_space (CHR '' '' # (''OceanofPDFs.com'' @ collapse is_space w))
        = ''OceanofPDFs.com'' @ collapse is_space w"
    using space_is_space o by simp
  then have "normalize (PREFIX @ r)
        = rev (dropWhile is_space (rev (''OceanofPDFs.com'' @ collapse is_space w)))"
    by (simp only: normalize_def strip_def b U_def [symmetric])
  also have "\<dots> = ''OceanofPDFs.com'' @ rev (dropWhile is_space (rev (collapse is_space w)))"
    by (rule rstrip_word) (use domain_not_space in simp_all)
  finally show ?thesis by blast
qed


section \<open>Facts about the retry loop\<close>

lemma rename_loop_spec:
  "int a < retries \<Longrightarrow>
   \<exists>n. a \<le> n \<and> int n < retries
     \<and> (\<forall>k. a \<le> k \<and> k < n \<longrightarrow>
            (\<exists>ex. os_rename e k fs pdf_path new_path = Inl ex \<and> is_cloud_error (message ex)))
     \<and> rename_loop e fs pdf_path new_path stamps retries a s
         = (case os_rename e n fs pdf_path new_path of
              Inr fs1 \<Rightarrow> (Inr (True, new_path), restore_times e fs1 new_path stamps, s + (n - a))
            | Inl ex \<Rightarrow> (Inl ex, fs, s + (n - a)))
     \<and> (\<forall>ex. os_rename e n fs pdf_path new_path = Inl ex \<longrightarrow>
            \<not> is_cloud_error (message ex) \<or> int n = retries - 1)"
proof (induction e fs pdf_path new_path stamps retries a s rule: rename_loop.induct)
  case (1 e fs pdf_path new_path stamps retries a s)
  show ?case
  proof (cases "os_rename e a fs pdf_path new_path")
    case (Inr fs1)
    with "1.prems" have "rename_loop e fs pdf_path new_path stamps retries a s
        = (Inr (True, new_path), restore_times e fs1 new_path stamps, s)"
      by (subst rename_loop.simps) simp
    with Inr "1.prems" show ?thesis
      by (intro exI [of _ a]) auto
  next
    case (Inl ex)
    show ?thesis
    proof (cases "is_cloud_error (message ex) \<and> int a < retries - 1")
      case False
      with Inl "1.prems" have "rename_loop e fs pdf_path new_path stamps retries a s = (Inl ex, fs, s)"
        by (subst rename_loop.simps) auto
      with Inl "1.prems" False show ?thesis
        by (intro exI [of _ a]) auto
    next
      case True
      with Inl "1.prems" have u: "rename_loop e fs pdf_path new_path stamps retries a s
          = rename_loop e fs pdf_path new_path stamps retries (a + 1) (s + 1)"
        by (subst rename_loop.simps) simp
      from True have lt: "int (a + 1) < retries" by simp
      from "1.IH" [OF "1.prems" Inl True lt]
      obtain n where n: "a + 1 \<le> n" "int n < retries"
        and before: "\<forall>k. a + 1 \<le> k \<and> k < n \<longrightarrow>
            (\<exists>ex. os_rename e k fs pdf_path new_path = Inl ex \<and> is_cloud_error (message ex))"
        and res: "rename_loop e fs pdf_path new_path stamps retries (a + 1) (s + 1)
         = (case os_rename e n fs pdf_path new_path of
              Inr fs1 \<Rightarrow> (Inr (True, new_path), restore_times e fs1 new_path stamps, s + 1 + (n - (a + 1)))
            | Inl ex \<Rightarrow> (Inl ex, fs, s + 1 + (n - (a + 1))))"
        and last: "\<forall>ex. os_rename e n fs pdf_path new_path = Inl ex \<longrightarrow>
            \<not> is_cloud_error (message ex) \<or> int n = retries - 1"
        by blast
      have "\<forall>k. a \<le> k \<and> k < n \<longrightarrow>
            (\<exists>ex. os_rename e k fs pdf_path new_path = Inl ex \<and> is_cloud_error (message ex))"
      proof (intro allI impI)
        fix k assume k: "a \<le> k \<and> k < n"
        show "\<exists>ex. os_rename e k fs pdf_path new_path = Inl ex \<and> is_cloud_error (message ex)"
        proof (cases "k = a")
          case True
          with Inl \<open>is_cloud_error (message ex) \<and> int a < retries - 1\<close> show ?thesis by blast
        next
          case False
          with k have "a + 1 \<le> k \<and> k < n" by simp
          with before show ?thesis by blast
        qed
      qed
      moreover from n have eq: "s + 1 + (n - (a + 1)) = s + (n - a)" by simp
      note res' = res [unfolded eq]
      ultimately show ?thesis
        using n res' last u by (intro exI [of _ n]) auto
    qed
  qed
qed


section \<open>The sample inputs evaluated\<close>

lemma book_tmp: "with_suffix book (suffix book @ ''.tmp'') = Inr book_tmp"
  by code_simp

lemma clean_page_precheck: "\<not> page_might_contain_phrase clean_page"
  by code_simp

lemma marked_span_matches: "span_matches marked_span"
  by code_simp

lemma marked_page_precheck: "page_might_contain_phrase marked_page"
  by code_simp

lemma redact_marked_page:
  "redact_phrase marked_page = (\<lparr>links = [], blocks = [[[]]], redact_annots = []\<rparr>, 1)"
  by (simp add: redact_phrase_def Let_def marked_page_def marked_span_matches apply_redactions_def)

lemma book_ne_tmp: "book \<noteq> book_tmp" "book_tmp \<noteq> book"
  by (simp_all add: book_def book_tmp_def)

lemma unreadable_run:
  "process_pdf unreadable (shelf [clean_page]) book False False
     = (Inr (False, - 1, - 1, Some ''cannot open broken document''), shelf [clean_page])"
  by (simp add: process_pdf_def book_tmp process_pdf_try_def fitz_open_def unreadable_def
      exists_def shelf_def book_ne_tmp)





lemma quiet_links: "pass_links quiet 0 [marked_page] = Inr ([marked_page], 0)"
  by (simp add: quiet_def remove_links_noop)

lemma quiet_text:
  "pass_text quiet 0 [marked_page] = Inr ([\<lparr>links = [], blocks = [[[]]], redact_annots = []\<rparr>], 1)"
  by (simp add: quiet_def marked_page_precheck redact_marked_page)


lemma gatsby_rename: "compute_rename library gatsby = Inr (Some gatsby_clean)"
  by code_simp

lemma crowded_unique:
  "unique_path crowded book = Inr \<lparr>parent = ''/books'', name = ''a (2).pdf''\<rparr>"
  by code_simp

lemma flaky_rename:
  "fst (rename_if_needed flaky library gatsby False default_retries) = Inr (True, gatsby_clean)
   \<and> snd (snd (rename_if_needed flaky library gatsby False default_retries)) = 2
   \<and> fmlookup (fst (snd (rename_if_needed flaky library gatsby False default_retries))) gatsby_clean
       = Some \<lparr>content = [clean_page], atime = 1, mtime = 2\<rparr>
   \<and> fmlookup (fst (snd (rename_if_needed flaky library gatsby False default_retries))) gatsby = None"
  by code_simp


section \<open>Claims\<close>

text \<open>
  C1.  The text pattern is meant to match the watermark phrase \<open>OceanofPDFs.com\<close> in any
  letter case and with white space between its characters.  The pattern of the source
  has no item for the letter \<open>s\<close>, so on the phrase itself the search finds nothing,
  while the same text without the \<open>s\<close> is found.
\<close>

theorem text_pattern_misses_phrase:
  "search TEXT_PATTERN ''OceanofPDFs.com'' = False
   \<and> search TEXT_PATTERN ''OceanofPDF.com'' = True"
  by code_simp

text \<open>
  C2.  \<open>remove_links\<close> is meant to delete every link whose URI contains the watermark
  domain, whatever the letter case.  It compares the lower-cased URI with the
  mixed-case constant, so on a page whose only link points to the watermark domain it
  deletes nothing and returns 0.
\<close>

theorem remove_links_keeps_watermark_link:
  "remove_links \<lparr>links = [\<lparr>uri = Some ''https://OceanofPDFs.com/'', from_rect = (0, 0, 10, 10)\<rparr>],
                  blocks = [], redact_annots = []\<rparr>
   = (\<lparr>links = [\<lparr>uri = Some ''https://OceanofPDFs.com/'', from_rect = (0, 0, 10, 10)\<rparr>],
        blocks = [], redact_annots = []\<rparr>, 0)"
  by (rule remove_links_noop)

text \<open>
  C3.  The first component of the result of \<open>process_pdf\<close> is meant to be
  \<open>text_hits + link_hits > 0\<close>, in a dry run too.  The dry-run branch returns the
  literal \<open>True\<close>: a document without any watermark, run dry, is reported as changed
  with zero hits.
\<close>

theorem dry_run_reports_changed:
  "process_pdf quiet (shelf [clean_page]) book False True
     = (Inr (True, 0, 0, None), shelf [clean_page])"
  by (simp add: process_pdf_def book_tmp process_pdf_try_def fitz_open_def shelf_def quiet_def
      remove_links_noop clean_page_precheck doc_close_def)

text \<open>
  C10.  Whenever \<open>process_pdf\<close> returns a tuple with an error text, the tuple is
  \<open>(False, -1, -1, error)\<close>.
\<close>

theorem process_pdf_error_report:
  assumes "process_pdf e fs pdf_path links_only dry_run = (Inr (changed, text_hits, link_hits, Some err), fs')"
  shows "changed = False \<and> text_hits = - 1 \<and> link_hits = - 1"
proof (cases "with_suffix pdf_path (suffix pdf_path @ ''.tmp'')")
  case (Inl ex)
  with assms show ?thesis by (simp add: process_pdf_def)
next
  case (Inr temp)
  obtain r fs1 where t: "process_pdf_try e fs pdf_path temp (get_file_times fs pdf_path) links_only dry_run = (r, fs1)"
    by (cases "process_pdf_try e fs pdf_path temp (get_file_times fs pdf_path) links_only dry_run")
  show ?thesis
  proof (cases r)
    case (Inl ex)
    with assms Inr t show ?thesis
      by (auto simp: process_pdf_def split: if_splits sum.splits)
  next
    case r: (Inr rep)
    with assms Inr t have "rep = (changed, text_hits, link_hits, Some err)" and "fs1 = fs'"
      by (auto simp: process_pdf_def)
    with t r try_success_report [of e fs pdf_path temp "get_file_times fs pdf_path" links_only dry_run changed text_hits link_hits "Some err" fs1]
    show ?thesis by simp
  qed
qed

theorem process_pdf_error_report_witness:
  "\<exists>changed text_hits link_hits err fs'.
     process_pdf unreadable (shelf [clean_page]) book False False
       = (Inr (changed, text_hits, link_hits, Some err), fs')
     \<and> changed = False \<and> text_hits = - 1 \<and> link_hits = - 1"
  using process_pdf_error_report [OF unreadable_run] unreadable_run by blast






text \<open>
  C9.  Both passes are idempotent: when the two passes have run over a document, a second
  run of both over the result removes no link, redacts no span, and leaves the document
  as it is.
\<close>

theorem transform_idempotent:
  assumes "pass_links e 0 doc = Inr (d1, link_hits)"
    and "pass_text e 0 d1 = Inr (d2, text_hits)"
  shows "pass_links e 0 d2 = Inr (d2, 0) \<and> pass_text e 0 d2 = Inr (d2, 0)"
proof -
  from pass_links_noop [OF assms(1)] have d1: "d1 = doc" by simp
  have len: "length d2 = length doc"
    using pass_text_length [OF assms(2)] d1 by simp
  have "pass_text e 0 d2 = Inr (d2, 0)"
    using pass_text_settled [of d2 e 0] pass_text_settles [OF assms(2)]
      pass_text_faults [OF assms(2)] len d1 by simp
  moreover have "pass_links e 0 d2 = Inr (d2, 0)"
    using pass_links_quiet [of d2 e 0] pass_links_faults [OF assms(1)] len by simp
  ultimately show ?thesis by blast
qed

theorem transform_idempotent_witness:
  "pass_links quiet 0 [marked_page] = Inr ([marked_page], 0)
   \<and> pass_text quiet 0 [marked_page] = Inr ([\<lparr>links = [], blocks = [[[]]], redact_annots = []\<rparr>], 1)
   \<and> pass_links quiet 0 [\<lparr>links = [], blocks = [[[]]], redact_annots = []\<rparr>]
       = Inr ([\<lparr>links = [], blocks = [[[]]], redact_annots = []\<rparr>], 0)
   \<and> pass_text quiet 0 [\<lparr>links = [], blocks = [[[]]], redact_annots = []\<rparr>]
       = Inr ([\<lparr>links = [], blocks = [[[]]], redact_annots = []\<rparr>], 0)"
  using transform_idempotent [OF quiet_links quiet_text] quiet_links quiet_text by blast

text \<open>
  C7.  For a path with a name, \<open>unique_path\<close> returns a path that does not exist: the
  path itself when it does not exist, and otherwise the first of the candidates
  \<open>stem (1)\<close>, \<open>stem (2)\<close>, ... (with the suffix of the path) that does not exist.
\<close>

theorem unique_path_fresh:
  assumes "name p \<noteq> []" and "CHR ''/'' \<notin> set (name p)"
  shows "\<exists>r. unique_path fs p = Inr r \<and> \<not> exists fs r
           \<and> (if \<not> exists fs p then r = p
               else \<exists>i\<ge>1. candidate p i = Inr r
                      \<and> (\<forall>j. 1 \<le> j \<and> j < i \<longrightarrow> (\<exists>c. candidate p j = Inr c \<and> exists fs c)))"
proof (cases "exists fs p")
  case False
  then show ?thesis by (simp add: unique_path_def)
next
  case True
  from unique_loop_spec [OF assms, of 1 fs]
  obtain r k where "1 \<le> k" "unique_loop fs p 1 = Inr r" "candidate p k = Inr r" "\<not> exists fs r"
    "\<forall>j. 1 \<le> j \<and> j < k \<longrightarrow> (\<exists>c. candidate p j = Inr c \<and> exists fs c)"
    by blast
  with True show ?thesis
    by (auto simp: unique_path_def)
qed

theorem unique_path_fresh_witness:
  "\<exists>r. unique_path crowded book = Inr r \<and> \<not> exists crowded r
     \<and> (if \<not> exists crowded book then r = book
         else \<exists>i\<ge>1. candidate book i = Inr r
                \<and> (\<forall>j. 1 \<le> j \<and> j < i \<longrightarrow> (\<exists>c. candidate book j = Inr c \<and> exists crowded c)))"
proof -
  have a: "name book \<noteq> []" and b: "CHR ''/'' \<notin> set (name book)"
    by (simp_all add: book_def)
  show ?thesis by (rule unique_path_fresh [OF a b])
qed


text \<open>
  C5.  When the stem, after rule 1, starts with the prefix \<open>_OceanofPDFs.com_\<close> and the
  rest of it has no \<open>_-_\<close>, \<open>compute_rename\<close> does not strip the prefix: the new stem is
  the whole stem, prefix included, with the underscores and the white space normalised
  (rule 3), so it starts with \<open>OceanofPDFs.com\<close>; the target is that name with the
  suffix of the path, made unique.
\<close>

theorem compute_rename_keeps_prefix:
  assumes slash: "CHR ''/'' \<notin> set (name p)"
    and n1: "name1 = (if endswith (stem p) ZLIB_SUFFIX
                      then take (length (stem p) - length ZLIB_SUFFIX) (stem p) else stem p)"
    and pre: "name1 = PREFIX @ r"
    and nosep: "\<not> contains r ''_-_''"
  shows "compute_rename fs p
           = (case unique_path fs (p\<lparr>name := normalize name1 @ suffix p\<rparr>) of
                Inl ex \<Rightarrow> Inl ex
              | Inr target \<Rightarrow> Inr (Some target))
         \<and> startswith (normalize name1) ''OceanofPDFs.com''"
proof -
  obtain z where z: "normalize name1 = ''OceanofPDFs.com'' @ z"
    using normalize_prefixed [of r] pre by auto
  have sw: "startswith (normalize name1) ''OceanofPDFs.com''"
    unfolding z by (rule startswith_append)
  have g: "startswith name1 PREFIX" unfolding pre by (rule startswith_append)
  have rem: "drop (length PREFIX) name1 = r" by (simp add: pre)
  have sp: "split1 ''_-_'' r = [r]" by (rule split1_absent [OF nosep])
  have ne1: "name1 \<noteq> []" by (simp add: pre PREFIX_def)
  have hd1: "hd name1 = CHR ''_''" by (simp add: pre PREFIX_def)
  have sub: "set name1 \<subseteq> set (stem p)"
    unfolding n1 by (auto dest: in_set_takeD)
  have stem_ne: "stem p \<noteq> []" using ne1 sub by auto
  have hd_stem: "hd (stem p) = CHR ''_''"
  proof (cases "endswith (stem p) ZLIB_SUFFIX")
    case True
    with n1 have t: "name1 = take (length (stem p) - length ZLIB_SUFFIX) (stem p)" by simp
    with ne1 have "0 < length (stem p) - length ZLIB_SUFFIX" by (cases "length (stem p) - length ZLIB_SUFFIX") auto
    then have "hd (take (length (stem p) - length ZLIB_SUFFIX) (stem p)) = hd (stem p)"
      by (simp add: hd_take)
    with t hd1 show ?thesis by simp
  next
    case False
    with n1 hd1 show ?thesis by simp
  qed
  have nm: "name p = stem p @ suffix p" by (simp add: stem_suffix)
  have name_ne: "name p \<noteq> []" using nm stem_ne by simp
  have hd_name: "hd (name p) = CHR ''_''" using nm stem_ne hd_stem by (metis hd_append2)
  have "set (stem p) \<subseteq> set (name p)" and sfx_sub: "set (suffix p) \<subseteq> set (name p)"
    using nm by (metis Un_upper1 set_append, metis Un_upper2 set_append)
  with sub slash have "CHR ''/'' \<notin> set name1" by auto
  with set_normalize [of name1] have "CHR ''/'' \<notin> set (normalize name1)" by auto
  with sfx_sub slash have ns: "CHR ''/'' \<notin> set (normalize name1 @ suffix p)" by auto
  have nn: "normalize name1 @ suffix p \<noteq> []" and nd: "normalize name1 @ suffix p \<noteq> ''.''"
    by (simp_all add: z)
  have wn: "with_name p (normalize name1 @ suffix p) = Inr (p\<lparr>name := normalize name1 @ suffix p\<rparr>)"
    using name_ne nn nd ns by (simp add: with_name_def)
  have diff: "p\<lparr>name := normalize name1 @ suffix p\<rparr> \<noteq> p"
  proof
    assume "p\<lparr>name := normalize name1 @ suffix p\<rparr> = p"
    then have "name (p\<lparr>name := normalize name1 @ suffix p\<rparr>) = name p" by simp
    then have "hd (name (p\<lparr>name := normalize name1 @ suffix p\<rparr>)) = hd (name p)"
      by (rule arg_cong)
    moreover have "hd (name (p\<lparr>name := normalize name1 @ suffix p\<rparr>)) = CHR ''O''"
      by (simp add: z)
    ultimately show False using hd_name by simp
  qed
  have nrm: "strip (collapse is_space (collapse (\<lambda>c. c = CHR ''_'') name1)) = normalize name1"
    by (simp add: normalize_def)
  have "compute_rename fs p
           = (case unique_path fs (p\<lparr>name := normalize name1 @ suffix p\<rparr>) of
                Inl ex \<Rightarrow> Inl ex
              | Inr target \<Rightarrow> Inr (Some target))"
    unfolding compute_rename_def Let_def n1 [symmetric]
    by (simp only: g rem sp nrm wn diff if_True if_False list.case sum.case)
  with sw show ?thesis by blast
qed

text \<open>The stem \<open>_OceanofPDFs.com_Book\<close> becomes \<open>OceanofPDFs.com Book\<close>, not \<open>Book\<close>.\<close>

theorem unsplit_keeps_prefix:
  "startswith (stem unsplit) PREFIX
   \<and> split1 ''_-_'' (drop (length PREFIX) (stem unsplit)) = [''Book'']
   \<and> compute_rename fmempty unsplit
       = Inr (Some \<lparr>parent = ''/books'', name = ''OceanofPDFs.com Book.pdf''\<rparr>)
   \<and> compute_rename fmempty unsplit \<noteq> Inr (Some \<lparr>parent = ''/books'', name = ''Book.pdf''\<rparr>)"
  by code_simp


theorem compute_rename_keeps_prefix_witness:
  "compute_rename fmempty unsplit
     = (case unique_path fmempty (unsplit\<lparr>name := normalize ''_OceanofPDFs.com_Book'' @ suffix unsplit\<rparr>) of
          Inl ex \<Rightarrow> Inl ex
        | Inr target \<Rightarrow> Inr (Some target))
   \<and> startswith (normalize ''_OceanofPDFs.com_Book'') ''OceanofPDFs.com''"
proof -
  have a: "CHR ''/'' \<notin> set (name unsplit)" by code_simp
  have b: "''_OceanofPDFs.com_Book'' = (if endswith (stem unsplit) ZLIB_SUFFIX
                      then take (length (stem unsplit) - length ZLIB_SUFFIX) (stem unsplit)
                      else stem unsplit)" by code_simp
  have c: "''_OceanofPDFs.com_Book'' = PREFIX @ ''Book''" by (simp add: PREFIX_def)
  have d: "\<not> contains ''Book'' ''_-_''" by code_simp
  show ?thesis by (rule compute_rename_keeps_prefix [OF a b c d])
qed


text \<open>
  C6.  For a file name \<open>_OceanofPDFs.com_<T>_-_<A>.pdf\<close> where \<open><T>\<close> and \<open><A>\<close> are
  not empty and have no illegal character, no underscore and no white space other than
  single spaces inside, and the target does not exist, \<open>compute_rename\<close> yields
  \<open><A> - <T>.pdf\<close> in the same directory.
\<close>

theorem compute_rename_title_author:
  assumes "tidy T" and "tidy A"
    and "name p = PREFIX @ T @ ''_-_'' @ A @ ''.pdf''"
    and "\<not> exists fs (p\<lparr>name := A @ '' - '' @ T @ ''.pdf''\<rparr>)"
  shows "compute_rename fs p = Inr (Some (p\<lparr>name := A @ '' - '' @ T @ ''.pdf''\<rparr>))"
proof -
  note t = tidy_facts [OF assms(1)] and a = tidy_facts [OF assms(2)]
  have n: "name p = (PREFIX @ T @ ''_-_'' @ A) @ ''.pdf''" using assms(3) by simp
  have ne: "PREFIX @ T @ ''_-_'' @ A \<noteq> []" by (simp add: PREFIX_def)
  have sfx: "suffix p = ''.pdf''" and stm: "stem p = PREFIX @ T @ ''_-_'' @ A"
    using pdf_suffix [OF n ne] by simp_all
  have z: "\<not> endswith (stem p) ZLIB_SUFFIX"
    using not_zlib [OF a(2) a(1) a(5), of "PREFIX @ T"] by (simp add: stm)
  have pre: "startswith (stem p) PREFIX"
    unfolding stm by (rule startswith_append)
  have rem: "drop (length PREFIX) (stem p) = T @ ''_-_'' @ A"
    by (simp add: stm)
  have sp: "split1 ''_-_'' (T @ ''_-_'' @ A) = [T, A]"
    by (rule split1_at [OF t(2)])
  have wn: "with_name p ((A @ '' - '' @ T) @ suffix p) = Inr (p\<lparr>name := A @ '' - '' @ T @ ''.pdf''\<rparr>)"
    using t(3) a(3) a(1) by (simp add: with_name_def sfx assms(3) PREFIX_def)
  have diff: "p\<lparr>name := A @ '' - '' @ T @ ''.pdf''\<rparr> \<noteq> p"
  proof
    assume "p\<lparr>name := A @ '' - '' @ T @ ''.pdf''\<rparr> = p"
    then have "name (p\<lparr>name := A @ '' - '' @ T @ ''.pdf''\<rparr>) = name p" by simp
    then have "hd (name (p\<lparr>name := A @ '' - '' @ T @ ''.pdf''\<rparr>)) = hd (name p)"
      by (rule arg_cong)
    moreover have "hd (name p) = CHR ''_''" by (simp add: assms(3) PREFIX_def)
    moreover have "hd (name (p\<lparr>name := A @ '' - '' @ T @ ''.pdf''\<rparr>)) = hd A"
      using a(1) by simp
    ultimately have "hd A = CHR ''_''" by simp
    with a(1) a(2) show False by (cases A) auto
  qed
  have up: "unique_path fs (p\<lparr>name := A @ '' - '' @ T @ ''.pdf''\<rparr>)
              = Inr (p\<lparr>name := A @ '' - '' @ T @ ''.pdf''\<rparr>)"
    using assms(4) by (simp add: unique_path_def)
  show ?thesis
    unfolding compute_rename_def Let_def
    by (simp only: z pre rem sp sanitize_tidy [OF assms(1)] sanitize_tidy [OF assms(2)]
        joined_normal [OF assms(1) assms(2)] wn diff up if_True if_False list.case sum.case)
qed

text \<open>With an underscore in the title the result is not \<open><A> - <T>.pdf\<close>: rule 3 turns the
  underscore into a space.\<close>

theorem underscored_title_normalised:
  "name underscored = PREFIX @ ''Book_Title'' @ ''_-_'' @ ''Author'' @ ''.pdf''
   \<and> list_all (\<lambda>c. c \<notin> set illegal) ''Book_Title'' \<and> list_all (\<lambda>c. c \<notin> set illegal) ''Author''
   \<and> \<not> exists fmempty \<lparr>parent = ''/books'', name = ''Author - Book_Title.pdf''\<rparr>
   \<and> compute_rename fmempty underscored
       = Inr (Some \<lparr>parent = ''/books'', name = ''Author - Book Title.pdf''\<rparr>)
   \<and> compute_rename fmempty underscored
       \<noteq> Inr (Some \<lparr>parent = ''/books'', name = ''Author - Book_Title.pdf''\<rparr>)"
  by code_simp


theorem compute_rename_title_author_witness:
  "tidy ''Gatsby'' \<and> tidy ''Fitzgerald''
   \<and> compute_rename fmempty gatsby = Inr (Some gatsby_clean)"
proof -
  have t: "tidy ''Gatsby''" and a: "tidy ''Fitzgerald''" by code_simp+
  have n: "name gatsby = PREFIX @ ''Gatsby'' @ ''_-_'' @ ''Fitzgerald'' @ ''.pdf''"
    by (simp add: gatsby_def PREFIX_def)
  have f: "\<not> exists fmempty (gatsby\<lparr>name := ''Fitzgerald'' @ '' - '' @ ''Gatsby'' @ ''.pdf''\<rparr>)"
    by (simp add: exists_def)
  from compute_rename_title_author [OF t a n f] t a show ?thesis
    by (simp add: gatsby_def gatsby_clean_def)
qed


text \<open>
  C8.  When a rename is due, not in a dry run and with a positive budget \<open>retries\<close>,
  \<open>rename_if_needed\<close> makes \<open>n + 1\<close> attempts with \<open>n < retries\<close>: every attempt before
  the last one failed with an error whose lower-cased text contains \<open>cloud operation\<close>
  or \<open>time-out\<close>, and was followed by a sleep of one second (\<open>n\<close> seconds in all).  When
  the last attempt succeeds the result is \<open>(True, new_path)\<close> and the captured times
  are restored on the new path; when it fails its exception leaves the function, and
  then the error is not a cloud error or the budget is used up.
\<close>

theorem rename_if_needed_retries:
  assumes "compute_rename fs pdf_path = Inr (Some new_path)"
    and "\<not> dry_run" and "0 < retries"
  shows "\<exists>n. int n < retries
     \<and> (\<forall>k. k < n \<longrightarrow>
            (\<exists>ex. os_rename e k fs pdf_path new_path = Inl ex \<and> is_cloud_error (message ex)))
     \<and> rename_if_needed e fs pdf_path dry_run retries
         = (case os_rename e n fs pdf_path new_path of
              Inr fs1 \<Rightarrow> (Inr (True, new_path),
                           restore_times e fs1 new_path (get_file_times fs pdf_path), n)
            | Inl ex \<Rightarrow> (Inl ex, fs, n))
     \<and> (\<forall>ex. os_rename e n fs pdf_path new_path = Inl ex \<longrightarrow>
            \<not> is_cloud_error (message ex) \<or> int n = retries - 1)"
proof -
  from assms(3) have z: "int 0 < retries" by simp
  have eq: "\<And>n::nat. 0 + (n - 0) = n" by simp
  from rename_loop_spec [OF z, of e fs pdf_path new_path "get_file_times fs pdf_path" 0,
      unfolded eq]
  obtain n where "int n < retries"
    "\<forall>k. 0 \<le> k \<and> k < n \<longrightarrow>
        (\<exists>ex. os_rename e k fs pdf_path new_path = Inl ex \<and> is_cloud_error (message ex))"
    "rename_loop e fs pdf_path new_path (get_file_times fs pdf_path) retries 0 0
         = (case os_rename e n fs pdf_path new_path of
              Inr fs1 \<Rightarrow> (Inr (True, new_path),
                           restore_times e fs1 new_path (get_file_times fs pdf_path), n)
            | Inl ex \<Rightarrow> (Inl ex, fs, n))"
    "\<forall>ex. os_rename e n fs pdf_path new_path = Inl ex \<longrightarrow>
            \<not> is_cloud_error (message ex) \<or> int n = retries - 1"
    by blast
  then show ?thesis
    using assms(1,2) by (intro exI [of _ n]) (simp add: rename_if_needed_def)
qed

theorem rename_if_needed_retries_witness:
  "\<exists>n. int n < default_retries
     \<and> (\<forall>k. k < n \<longrightarrow>
            (\<exists>ex. os_rename flaky k library gatsby gatsby_clean = Inl ex \<and> is_cloud_error (message ex)))
     \<and> rename_if_needed flaky library gatsby False default_retries
         = (case os_rename flaky n library gatsby gatsby_clean of
              Inr fs1 \<Rightarrow> (Inr (True, gatsby_clean),
                           restore_times flaky fs1 gatsby_clean (get_file_times library gatsby), n)
            | Inl ex \<Rightarrow> (Inl ex, library, n))
     \<and> (\<forall>ex. os_rename flaky n library gatsby gatsby_clean = Inl ex \<longrightarrow>
            \<not> is_cloud_error (message ex) \<or> int n = default_retries - 1)"
proof -
  have a: "\<not> False" by simp
  have b: "0 < default_retries" by (simp add: default_retries_def)
  show ?thesis by (rule rename_if_needed_retries [OF gatsby_rename a b])
qed

end
